theory Spec2Isabelle
  imports Complex_Main
begin

section \<open>Characters and character classes\<close>

text \<open>
  Python strings are modelled as \<^typ>\<open>string\<close>, one \<^typ>\<open>char\<close> per code point.
  The character classes below are those of Python's \<^verbatim>\<open>re\<close> module and of
  \<^verbatim>\<open>str.strip\<close> on ASCII text; a character outside ASCII is neither whitespace
  nor a word character here and has no case.
\<close>

definition ascii_lowercase :: string where
  "ascii_lowercase = ''abcdefghijklmnopqrstuvwxyz''"

definition ascii_uppercase :: string where
  "ascii_uppercase = ''ABCDEFGHIJKLMNOPQRSTUVWXYZ''"

definition digits :: string where
  "digits = ''0123456789''"

text \<open>\<^verbatim>\<open>\s\<close> and the characters removed by \<^verbatim>\<open>str.strip()\<close>: tab, line feed,
  vertical tab, form feed, carriage return, the separators 0x1C to 0x1F, and the space.\<close>

definition is_space :: "char \<Rightarrow> bool" where
  "is_space c \<longleftrightarrow> c \<in> set [CHR 0x09, CHR 0x0A, CHR 0x0B, CHR 0x0C, CHR 0x0D,
                           CHR 0x1C, CHR 0x1D, CHR 0x1E, CHR 0x1F, CHR '' '']"

text \<open>\<^verbatim>\<open>\w\<close>: letters, digits and the underscore.\<close>

definition is_word :: "char \<Rightarrow> bool" where
  "is_word c \<longleftrightarrow> c \<in> set (ascii_lowercase @ ascii_uppercase @ digits @ ''_'')"

text \<open>\<^verbatim>\<open>[A-Za-z]\<close>\<close>

definition is_letter :: "char \<Rightarrow> bool" where
  "is_letter c \<longleftrightarrow> c \<in> set (ascii_uppercase @ ascii_lowercase)"

text \<open>\<^verbatim>\<open>[,.;:!?]\<close>\<close>

definition is_punct :: "char \<Rightarrow> bool" where
  "is_punct c \<longleftrightarrow> c \<in> set '',.;:!?''"

text \<open>\<^verbatim>\<open>[ ,;:]\<close>\<close>

definition is_delim :: "char \<Rightarrow> bool" where
  "is_delim c \<longleftrightarrow> c \<in> set '' ,;:''"

text \<open>\<^verbatim>\<open>[.!?]\<close>\<close>

definition is_terminal :: "char \<Rightarrow> bool" where
  "is_terminal c \<longleftrightarrow> c \<in> set ''.!?''"

text \<open>Case folding of the flag \<^verbatim>\<open>(?i)\<close>: two characters match when their lower-case
  forms are equal.\<close>

definition lower :: "char \<Rightarrow> char" where
  "lower c = (case map_of (zip ascii_uppercase ascii_lowercase) c of Some l \<Rightarrow> l | None \<Rightarrow> c)"

section \<open>Regular-expression substitution\<close>

text \<open>
  A matcher stands for one compiled pattern together with its replacement template. It is
  given the character before the current position (\<open>None\<close> at the start of the string) and
  the text from the current position on; when the pattern matches there it returns the
  expanded replacement and the text after the match.
\<close>

type_synonym matcher = "char option \<Rightarrow> string \<Rightarrow> (string \<times> string) option"

text \<open>
  \<^verbatim>\<open>re.sub(pattern, repl, t)\<close>: scan from the left; where the pattern matches, emit the
  replacement and resume after the match; elsewhere copy one character. Every pattern of
  this program consumes at least one character; the length test keeps the recursion
  well-founded for an arbitrary matcher.
\<close>

function re_sub :: "matcher \<Rightarrow> char option \<Rightarrow> string \<Rightarrow> string" where
  "re_sub m prev [] = []"
| "re_sub m prev (c # cs) =
     (case m prev (c # cs) of
        None \<Rightarrow> c # re_sub m (Some c) cs
      | Some (repl, rest) \<Rightarrow>
          if length rest \<le> length cs
          then repl @ re_sub m (Some ((c # cs) ! (length cs - length rest))) rest
          else c # re_sub m (Some c) cs)"
  by pat_completeness auto
termination
  by (relation "measure (\<lambda>(m, prev, s). length s)") auto

text \<open>\<^verbatim>\<open>\b\<close> between the character before and the character after a position.\<close>

definition word_boundary :: "char option \<Rightarrow> char option \<Rightarrow> bool" where
  "word_boundary l r \<longleftrightarrow>
     (case l of None \<Rightarrow> False | Some c \<Rightarrow> is_word c) \<noteq>
     (case r of None \<Rightarrow> False | Some c \<Rightarrow> is_word c)"

definition first_char :: "string \<Rightarrow> char option" where
  "first_char s = (case s of [] \<Rightarrow> None | c # _ \<Rightarrow> Some c)"

text \<open>\<^verbatim>\<open>$\<close> without the MULTILINE flag: the end of the string, or just before a line
  feed that ends the string.\<close>

definition at_dollar :: "string \<Rightarrow> bool" where
  "at_dollar s \<longleftrightarrow> s = [] \<or> s = [CHR 0x0A]"

text \<open>\<^verbatim>\<open>str.strip()\<close>\<close>

definition strip :: "string \<Rightarrow> string" where
  "strip s = rev (dropWhile is_space (rev (dropWhile is_space s)))"

subsection \<open>The patterns of \<^verbatim>\<open>light_cleanup\<close>\<close>

text \<open>\<^verbatim>\<open>re.sub(r"\s+", " ", t)\<close>: a maximal run of whitespace becomes one space.\<close>

definition whitespace_run :: matcher where
  "whitespace_run prev s =
     (case s of
        [] \<Rightarrow> None
      | c # cs \<Rightarrow> if is_space c then Some ('' '', dropWhile is_space cs) else None)"

text \<open>A literal under \<^verbatim>\<open>(?i)\<close>; the result is the text after it.\<close>

fun lit_ci :: "string \<Rightarrow> string \<Rightarrow> string option" where
  "lit_ci [] s = Some s"
| "lit_ci (p # ps) [] = None"
| "lit_ci (p # ps) (c # cs) = (if lower c = lower p then lit_ci ps cs else None)"

text \<open>\<^verbatim>\<open>um+\<close> and its like under \<^verbatim>\<open>(?i)\<close>: one \<open>c\<close>, then one or more \<open>d\<close>, as many
  as there are. (Giving back a repetition never helps: the next character would be
  another \<open>d\<close>, where neither \<^verbatim>\<open>\b\<close> nor a delimiter can match.)\<close>

definition elongated :: "char \<Rightarrow> char \<Rightarrow> string \<Rightarrow> string option" where
  "elongated c d s =
     (case s of
        x # y # ys \<Rightarrow>
          if lower x = lower c \<and> lower y = lower d
          then Some (dropWhile (\<lambda>z. lower z = lower d) ys) else None
      | _ \<Rightarrow> None)"

text \<open>\<^verbatim>\<open>FILLER_WORDS\<close>, in the order of the alternation; each entry is wrapped in
  \<^verbatim>\<open>\b ... \b\<close> by \<open>filler_word\<close> below.\<close>

definition FILLER_WORDS :: "(string \<Rightarrow> string option) list" where
  "FILLER_WORDS =
     [elongated CHR ''u'' CHR ''m'',
      elongated CHR ''u'' CHR ''h'',
      elongated CHR ''e'' CHR ''r'',
      elongated CHR ''a'' CHR ''h'',
      lit_ci ''like'',
      lit_ci ''you know'',
      lit_ci ''kind of'',
      lit_ci ''sort of'',
      lit_ci ''I mean'']"

text \<open>The third group \<^verbatim>\<open>([ ,;:]|$)\<close>: the group's text and the text after it.\<close>

definition filler_group3 :: "string \<Rightarrow> (string \<times> string) option" where
  "filler_group3 s =
     (case s of
        c # cs \<Rightarrow> if is_delim c then Some ([c], cs)
                  else if at_dollar s then Some ([], s) else None
      | [] \<Rightarrow> Some ([], []))"

text \<open>
  The second and third groups from a position: the alternatives are tried in order, and
  an alternative counts only when the \<^verbatim>\<open>\b\<close> on both of its sides and the third group
  match as well. The result is (group 2, group 3, text after the match). Every alternative
  consumes at least two characters, so group 2 is never empty; the test only keeps
  \<open>last\<close> defined.
\<close>

fun filler_word :: "(string \<Rightarrow> string option) list \<Rightarrow> char option \<Rightarrow> string \<Rightarrow>
    (string \<times> string \<times> string) option" where
  "filler_word [] prev s = None"
| "filler_word (w # ws) prev s =
     (case w s of
        None \<Rightarrow> filler_word ws prev s
      | Some r \<Rightarrow>
          (let g2 = take (length s - length r) s in
           if g2 \<noteq> [] \<and> word_boundary prev (first_char s)
              \<and> word_boundary (Some (last g2)) (first_char r)
           then (case filler_group3 r of
                   Some (g3, rest) \<Rightarrow> Some (g2, g3, rest)
                 | None \<Rightarrow> filler_word ws prev s)
           else filler_word ws prev s))"

text \<open>
  The whole pattern \<^verbatim>\<open>(?i)(^|[ ,;:])(...)([ ,;:]|$)\<close> at a position: the first group
  is tried as \<^verbatim>\<open>^\<close> (only at the start of the string), then as one delimiter. The
  result is (group 1, group 2, group 3, text after the match).
\<close>

definition filler_groups :: "char option \<Rightarrow> string \<Rightarrow>
    (string \<times> string \<times> string \<times> string) option" where
  "filler_groups prev s =
     (case (if prev = None then filler_word FILLER_WORDS None s else None) of
        Some (g2, g3, rest) \<Rightarrow> Some ([], g2, g3, rest)
      | None \<Rightarrow>
          (case s of
             c # cs \<Rightarrow>
               if is_delim c
               then (case filler_word FILLER_WORDS (Some c) cs of
                       Some (g2, g3, rest) \<Rightarrow> Some ([c], g2, g3, rest)
                     | None \<Rightarrow> None)
               else None
           | [] \<Rightarrow> None))"

text \<open>The filler pattern with its replacement \<^verbatim>\<open>r"\1\3"\<close>.\<close>

definition filler :: matcher where
  "filler prev s =
     (case filler_groups prev s of
        Some (g1, g2, g3, rest) \<Rightarrow> Some (g1 @ g3, rest)
      | None \<Rightarrow> None)"

text \<open>
  \<^verbatim>\<open>re.sub(r"(?i)\b(\w+)\s+\1\b", r"\1", t)\<close>. The word and the whitespace are taken as
  long as they are: a shorter word would leave a word character where \<^verbatim>\<open>\s+\<close> must
  match, and shorter whitespace would leave a space where the back-reference starts.
\<close>

definition destutter :: matcher where
  "destutter prev s =
     (let w = takeWhile is_word s; r1 = dropWhile is_word s;
          sp = takeWhile is_space r1; r2 = dropWhile is_space r1
      in if word_boundary prev (first_char s) \<and> w \<noteq> [] \<and> sp \<noteq> []
         then (case lit_ci w r2 of
                 Some r3 \<Rightarrow>
                   if word_boundary (Some (last (take (length w) r2))) (first_char r3)
                   then Some (w, r3) else None
               | None \<Rightarrow> None)
         else None)"

text \<open>\<^verbatim>\<open>re.sub(r"\s+([,.;:!?])", r"\1", t)\<close>\<close>

definition space_before_punct :: matcher where
  "space_before_punct prev s =
     (case s of
        [] \<Rightarrow> None
      | c # cs \<Rightarrow>
          if is_space c
          then (case dropWhile is_space cs of
                  p # rest \<Rightarrow> if is_punct p then Some ([p], rest) else None
                | [] \<Rightarrow> None)
          else None)"

text \<open>\<^verbatim>\<open>re.sub(r"([,.;:!?])([A-Za-z])", r"\1 \2", t)\<close>\<close>

definition space_after_punct :: matcher where
  "space_after_punct prev s =
     (case s of
        p # l # rest \<Rightarrow>
          if is_punct p \<and> is_letter l then Some ([p, CHR '' '', l], rest) else None
      | _ \<Rightarrow> None)"

text \<open>\<^verbatim>\<open>re.sub(r"([,.;:!?])\1+", r"\1", t)\<close>\<close>

definition double_punct :: matcher where
  "double_punct prev s =
     (case s of
        p # q # rest \<Rightarrow>
          if is_punct p \<and> q = p then Some ([p], dropWhile (\<lambda>x. x = p) rest) else None
      | _ \<Rightarrow> None)"

text \<open>\<^verbatim>\<open>re.search(r"[.!?]\s*$", t)\<close>, as a truth value: some position holds a terminal
  mark and only whitespace follows it.\<close>

fun ends_terminal :: "string \<Rightarrow> bool" where
  "ends_terminal [] = False"
| "ends_terminal (c # cs) =
     ((is_terminal c \<and> at_dollar (dropWhile is_space cs)) \<or> ends_terminal cs)"

section \<open>The normalizer\<close>

text \<open>The value of \<^verbatim>\<open>t\<close> in \<^verbatim>\<open>light_cleanup\<close> when the final \<^verbatim>\<open>if\<close> is reached.\<close>

definition before_terminal :: "string \<Rightarrow> string" where
  "before_terminal text =
     (let t = strip text;
          t = re_sub whitespace_run None t;
          t = re_sub filler None t;
          t = strip (re_sub whitespace_run None t);
          t = re_sub destutter None t;
          t = re_sub space_before_punct None t;
          t = re_sub space_after_punct None t;
          t = re_sub double_punct None t
      in t)"

definition light_cleanup :: "string \<Rightarrow> string" where
  "light_cleanup text =
     (let t = before_terminal text in
      if t \<noteq> [] \<and> \<not> ends_terminal t
      then (if 40 < length t then t @ ''.'' else t)
      else t)"

section \<open>Timestamps\<close>

text \<open>
  Seconds are Python floats in the source. They are modelled as exact rationals: the
  rounding of floating-point arithmetic is outside this model.
\<close>

text \<open>\<^verbatim>\<open>int(x)\<close> on a float truncates towards zero.\<close>

definition py_int :: "rat \<Rightarrow> int" where
  "py_int x = (if 0 \<le> x then \<lfloor>x\<rfloor> else \<lceil>x\<rceil>)"

definition digit_char :: "nat \<Rightarrow> char" where
  "digit_char n = digits ! n"

text \<open>\<^verbatim>\<open>str(n)\<close> for a natural number.\<close>

fun decimal :: "nat \<Rightarrow> string" where
  "decimal n = (if n < 10 then [digit_char n] else decimal (n div 10) @ [digit_char (n mod 10)])"

declare decimal.simps [simp del]

text \<open>The format specification \<^verbatim>\<open>02d\<close>: zero-padded to a width of at least two, the
  sign of a negative number counted in the width.\<close>

definition fmt_02d :: "int \<Rightarrow> string" where
  "fmt_02d n =
     (if n < 0 then CHR ''-'' # decimal (nat (- n))
      else replicate (2 - length (decimal (nat n))) CHR ''0'' @ decimal (nat n))"

definition fmt_time :: "rat \<Rightarrow> string" where
  "fmt_time seconds =
     (let s = py_int (seconds + 1 / 2);
          h = s div 3600;
          m = (s mod 3600) div 60;
          sec = s mod 60
      in if h > 0 then fmt_02d h @ '':'' @ fmt_02d m @ '':'' @ fmt_02d sec
         else fmt_02d m @ '':'' @ fmt_02d sec)"

section \<open>Segments and blocks\<close>

record segment =
  seg_start :: rat
  seg_end :: rat
  seg_text :: string

text \<open>The fields of a block are declared as floats; \<^verbatim>\<open>build_blocks\<close> stores the integers
  \<^verbatim>\<open>b_start\<close> and \<^verbatim>\<open>b_end\<close> in them.\<close>

record block =
  blk_start :: int
  blk_end :: int
  blk_text :: string

datatype py_error = ZeroDivisionError

text \<open>\<^verbatim>\<open>max(...)\<close> over a non-empty sequence, with its first element split off.\<close>

definition py_max :: "rat \<Rightarrow> rat list \<Rightarrow> rat" where
  "py_max x xs = foldl (\<lambda>best y. if y > best then y else best) x xs"

text \<open>\<^verbatim>\<open>" ".join(texts)\<close>\<close>

fun join_space :: "string list \<Rightarrow> string" where
  "join_space [] = []"
| "join_space [x] = x"
| "join_space (x # y # ys) = x @ '' '' @ join_space (y # ys)"

text \<open>The first inner loop:
  \<^verbatim>\<open>while seg_idx < len(segments) and segments[seg_idx].end <= b_start: seg_idx += 1\<close>\<close>

function skip_ended :: "segment list \<Rightarrow> int \<Rightarrow> nat \<Rightarrow> nat" where
  "skip_ended segments b_start seg_idx =
     (if seg_idx < length segments \<and> seg_end (segments ! seg_idx) \<le> of_int b_start
      then skip_ended segments b_start (seg_idx + 1)
      else seg_idx)"
  by pat_completeness auto
termination
  by (relation "measure (\<lambda>(segments, b_start, seg_idx). length segments - seg_idx)") auto

declare skip_ended.simps [simp del]

text \<open>The second inner loop, from \<^verbatim>\<open>j = seg_idx\<close>:
  \<^verbatim>\<open>while j < len(segments) and segments[j].start < b_end: ...; j += 1\<close>.
  The result is the state when the loop ends: \<^verbatim>\<open>j\<close> and \<^verbatim>\<open>texts\<close>.\<close>

function collect_texts ::
    "segment list \<Rightarrow> int \<Rightarrow> nat \<Rightarrow> string list \<Rightarrow> nat \<times> string list" where
  "collect_texts segments b_end j texts =
     (if j < length segments \<and> seg_start (segments ! j) < of_int b_end
      then collect_texts segments b_end (j + 1)
             (if seg_text (segments ! j) \<noteq> [] then texts @ [seg_text (segments ! j)] else texts)
      else (j, texts))"
  by pat_completeness auto
termination
  by (relation "measure (\<lambda>(segments, b_end, j, texts). length segments - j)") auto

declare collect_texts.simps [simp del]

text \<open>The body of \<^verbatim>\<open>for i in range(nbins)\<close> for the remaining bin indices; the state is
  \<^verbatim>\<open>seg_idx\<close> and \<^verbatim>\<open>blocks\<close>.\<close>

fun bins_loop :: "segment list \<Rightarrow> int \<Rightarrow> int \<Rightarrow> nat list \<Rightarrow> nat \<Rightarrow> block list \<Rightarrow> block list" where
  "bins_loop segments interval_s bin0 [] seg_idx blocks = blocks"
| "bins_loop segments interval_s bin0 (i # is) seg_idx blocks =
     (let b_start = bin0 + int i * interval_s;
          b_end = b_start + interval_s;
          seg_idx = skip_ended segments b_start seg_idx;
          texts = snd (collect_texts segments b_end seg_idx []);
          blocks =
            (if texts \<noteq> []
             then (let raw = join_space texts;
                       cleaned = light_cleanup raw
                   in if cleaned \<noteq> []
                      then blocks @ [\<lparr>blk_start = b_start, blk_end = b_end, blk_text = cleaned\<rparr>]
                      else blocks)
             else blocks)
      in bins_loop segments interval_s bin0 is seg_idx blocks)"

text \<open>\<^verbatim>\<open>bin0\<close> and \<^verbatim>\<open>nbins\<close> of \<^verbatim>\<open>build_blocks\<close>, for a non-empty segment list.\<close>

definition anchor :: "segment list \<Rightarrow> int \<Rightarrow> int" where
  "anchor segments interval_s =
     \<lfloor>seg_start (hd segments) / of_int interval_s\<rfloor> * interval_s"

definition bin_count :: "segment list \<Rightarrow> int \<Rightarrow> int" where
  "bin_count segments interval_s =
     (let t_end = py_max (seg_end (hd segments)) (map seg_end (tl segments));
          bin0 = anchor segments interval_s
      in \<lceil>(t_end - of_int bin0) / of_int interval_s\<rceil>)"

text \<open>\<^verbatim>\<open>build_blocks\<close>. A division by an interval of zero raises; \<^verbatim>\<open>range(nbins)\<close> is
  empty when \<^verbatim>\<open>nbins\<close> is not positive.\<close>

definition build_blocks :: "segment list \<Rightarrow> int \<Rightarrow> py_error + block list" where
  "build_blocks segments interval_s =
     (if segments = [] then Inr []
      else if interval_s = 0 then Inl ZeroDivisionError
      else
        let bin0 = anchor segments interval_s;
            nbins = bin_count segments interval_s
        in Inr (bins_loop segments interval_s bin0 [0..<nat nbins] 0 []))"

subsection \<open>The state of the scan at each bin\<close>

text \<open>\<^verbatim>\<open>seg_idx\<close> on entry to iteration \<open>i\<close> of the loop over the bins.\<close>

primrec seg_idx_at :: "segment list \<Rightarrow> int \<Rightarrow> int \<Rightarrow> nat \<Rightarrow> nat" where
  "seg_idx_at segments interval_s bin0 0 = 0"
| "seg_idx_at segments interval_s bin0 (Suc i) =
     skip_ended segments (bin0 + int i * interval_s) (seg_idx_at segments interval_s bin0 i)"

text \<open>The cursor of bin \<open>i\<close>: \<^verbatim>\<open>seg_idx\<close> after the first inner loop of iteration \<open>i\<close>.\<close>

definition cursor :: "segment list \<Rightarrow> int \<Rightarrow> int \<Rightarrow> nat \<Rightarrow> nat" where
  "cursor segments interval_s bin0 i = seg_idx_at segments interval_s bin0 (Suc i)"


definition bin_texts :: "segment list \<Rightarrow> int \<Rightarrow> int \<Rightarrow> nat \<Rightarrow> string list" where
  "bin_texts segments interval_s bin0 i =
     snd (collect_texts segments (bin0 + int i * interval_s + interval_s)
            (cursor segments interval_s bin0 i) [])"

text \<open>What iteration \<open>i\<close> appends to \<^verbatim>\<open>blocks\<close>: one block, or nothing.\<close>

definition bin_blocks :: "segment list \<Rightarrow> int \<Rightarrow> int \<Rightarrow> nat \<Rightarrow> block list" where
  "bin_blocks segments interval_s bin0 i =
     (let texts = bin_texts segments interval_s bin0 i;
          cleaned = light_cleanup (join_space texts)
      in if texts \<noteq> [] \<and> cleaned \<noteq> []
         then [\<lparr>blk_start = bin0 + int i * interval_s,
                blk_end = bin0 + int i * interval_s + interval_s,
                blk_text = cleaned\<rparr>]
         else [])"

section \<open>The caller\<close>

text \<open>
  \<^verbatim>\<open>main\<close> after the arguments are parsed and the segments are loaded. The rows handed to
  the renderer are a timestamp and the text of each block; writing the file is outside
  this model.
\<close>

datatype outcome =
    Crash py_error
  | SystemExit string
  | Wrote "(string \<times> string) list"

definition pdf_rows :: "block list \<Rightarrow> (string \<times> string) list" where
  "pdf_rows blocks = map (\<lambda>b. (fmt_time (of_int (blk_start b)), blk_text b)) blocks"

definition main :: "segment list \<Rightarrow> int \<Rightarrow> outcome" where
  "main segments interval =
     (case build_blocks segments interval of
        Inl e \<Rightarrow> Crash e
      | Inr blocks \<Rightarrow>
          if blocks = [] then SystemExit ''No transcript text found in JSON segments.''
          else Wrote (pdf_rows blocks))"

section \<open>Notions used in the properties\<close>


text \<open>
  The fillers in the words of the specification, on the lower-case form of a string: an
  elongated "um", "uh", "er" or "ah" (the second letter once or more), "like", "you know",
  "kind of", "sort of" and "I mean".
\<close>

definition elongation :: "char \<Rightarrow> char \<Rightarrow> string \<Rightarrow> bool" where
  "elongation c d l =
     (case l of x # y # ys \<Rightarrow> x = c \<and> y = d \<and> list_all (\<lambda>z. z = d) ys | _ \<Rightarrow> False)"

definition is_filler :: "string \<Rightarrow> bool" where
  "is_filler f =
     (let l = map lower f in
      elongation CHR ''u'' CHR ''m'' l \<or> elongation CHR ''u'' CHR ''h'' l \<or>
      elongation CHR ''e'' CHR ''r'' l \<or> elongation CHR ''a'' CHR ''h'' l \<or>
      l \<in> set [''like'', ''you know'', ''kind of'', ''sort of'', ''i mean''])"

text \<open>The two segments of the end-to-end scenario of the specification.\<close>

definition scenario :: "segment list" where
  "scenario =
     [\<lparr>seg_start = 0, seg_end = 5, seg_text = ''um so today''\<rparr>,
      \<lparr>seg_start = 5, seg_end = 33, seg_text = ''we we talk about caches''\<rparr>]"

section \<open>Properties of the bucketizer\<close>

subsection \<open>The loops in closed form\<close>






lemma bins_loop_upt:
  "bins_loop segs k bin0 [a..<b] (seg_idx_at segs k bin0 a) acc =
     acc @ concat (map (bin_blocks segs k bin0) [a..<b])"
proof (induction "b - a" arbitrary: a acc)
  case 0
  then show ?case by simp
next
  case (Suc n)
  then have ab: "a < b" and n: "n = b - Suc a" by simp_all
  have upt: "[a..<b] = a # [Suc a..<b]"
    using ab by (simp add: upt_conv_Cons)
  have IH: "bins_loop segs k bin0 [Suc a..<b]
        (skip_ended segs (bin0 + int a * k) (seg_idx_at segs k bin0 a)) acc' =
      acc' @ concat (map (bin_blocks segs k bin0) [Suc a..<b])" for acc'
    using Suc.hyps(1) [OF n, of acc'] by simp
  show ?case
    unfolding upt
    by (simp add: Let_def IH bin_blocks_def bin_texts_def cursor_def)
qed

lemma build_blocks_bins:
  "segs \<noteq> [] \<Longrightarrow> k \<noteq> 0 \<Longrightarrow>
   build_blocks segs k =
     Inr (concat (map (bin_blocks segs k (anchor segs k)) [0..<nat (bin_count segs k)]))"
  using bins_loop_upt [of segs k "anchor segs k" 0 "nat (bin_count segs k)" "[]"]
  by (simp add: build_blocks_def Let_def)

lemma py_max_Max: "py_max x xs = Max (set (x # xs))"
proof (induction xs arbitrary: x)
  case Nil
  then show ?case by (simp add: py_max_def)
next
  case (Cons y ys)
  have "py_max x (y # ys) = py_max (if y > x then y else x) ys"
    by (simp add: py_max_def)
  also have "\<dots> = Max (set ((if y > x then y else x) # ys))"
    by (rule Cons.IH)
  also have "\<dots> = Max (set (x # y # ys))"
  proof (cases ys)
    case Nil
    then show ?thesis by (simp add: max_def)
  next
    case (Cons z zs)
    then show ?thesis by (auto simp: max_def)
  qed
  finally show ?case .
qed

lemma t_end_Max:
  "segs \<noteq> [] \<Longrightarrow>
   py_max (seg_end (hd segs)) (map seg_end (tl segs)) = Max (seg_end ` set segs)"
  by (cases segs) (simp_all add: py_max_Max)

subsection \<open>The end-to-end scenario\<close>

text \<open>
  C1, as stated: the two segments with interval 30 give exactly one bucket, from 0 to 30,
  with the text "so today we talk about caches". The code returns a different list.
\<close>

theorem scenario_not_one_bucket:
  "build_blocks scenario 30 \<noteq>
     Inr [\<lparr>blk_start = 0, blk_end = 30, blk_text = ''so today we talk about caches''\<rparr>]"
  unfolding scenario_def by code_simp

text \<open>
  C1, amended: for the two segments with interval 30 the anchor is 0 and, the second
  segment ending at 33, there are two bins. The bucket from 0 to 30 has the text
  "so today we talk about caches", which is the cleaned concatenation of both segments,
  is shorter than 40 characters and gets no terminal period; the second segment starts
  before 60 and ends after 30, so a second bucket from 30 to 60 holds its cleaned text
  "we talk about caches".
\<close>

theorem scenario_two_buckets:
  "anchor scenario 30 = 0 \<and> bin_count scenario 30 = 2 \<and>
   build_blocks scenario 30 =
     Inr [\<lparr>blk_start = 0, blk_end = 30, blk_text = ''so today we talk about caches''\<rparr>,
          \<lparr>blk_start = 30, blk_end = 60, blk_text = ''we talk about caches''\<rparr>] \<and>
   light_cleanup ''um so today we we talk about caches'' = ''so today we talk about caches'' \<and>
   length ''so today we talk about caches'' < 40"
  unfolding scenario_def by code_simp

subsection \<open>Empty input\<close>

text \<open>
  C9: for any interval, the bucketizer applied to no segments returns no blocks and raises
  nothing, and the caller then ends with the "empty result" exit, not a crash.
\<close>

theorem empty_input:
  "build_blocks [] interval_s = Inr [] \<and>
   main [] interval_s = SystemExit ''No transcript text found in JSON segments.''"
  by (simp add: build_blocks_def main_def)

subsection \<open>Segments that end at or below the anchor\<close>

text \<open>
  C10: for a non-empty segment list and a positive interval, when the greatest segment end
  is at or below the anchor, the number of bins is zero or negative and
  \<^verbatim>\<open>build_blocks\<close> returns the empty list, whatever text the segments carry.
\<close>

theorem ends_at_or_below_anchor:
  assumes "segs \<noteq> []" and "0 < k"
    and "Max (seg_end ` set segs) \<le> of_int (anchor segs k)"
  shows "bin_count segs k \<le> 0 \<and> build_blocks segs k = Inr []"
proof -
  have "(Max (seg_end ` set segs) - of_int (anchor segs k)) / of_int k \<le> 0"
    using assms(2,3) by (simp add: divide_le_0_iff)
  then have n: "bin_count segs k \<le> 0"
    using assms(1) by (simp add: bin_count_def t_end_Max ceiling_le_iff)
  then show ?thesis
    using assms(1,2) by (simp add: build_blocks_def)
qed

text \<open>An instance: one segment that starts at 12 seconds and has the default end 0.\<close>

theorem ends_at_or_below_anchor_witness:
  "[\<lparr>seg_start = 12, seg_end = 0, seg_text = ''hello''\<rparr>] \<noteq> [] \<and> (0::int) < 30 \<and>
   Max (seg_end ` set [\<lparr>seg_start = 12, seg_end = 0, seg_text = ''hello''\<rparr>])
     \<le> of_int (anchor [\<lparr>seg_start = 12, seg_end = 0, seg_text = ''hello''\<rparr>] 30) \<and>
   bin_count [\<lparr>seg_start = 12, seg_end = 0, seg_text = ''hello''\<rparr>] 30 \<le> 0 \<and>
   build_blocks [\<lparr>seg_start = 12, seg_end = 0, seg_text = ''hello''\<rparr>] 30 = Inr []"
proof -
  have h: "Max (seg_end ` set [\<lparr>seg_start = 12, seg_end = 0, seg_text = ''hello''\<rparr>])
     \<le> of_int (anchor [\<lparr>seg_start = 12, seg_end = 0, seg_text = ''hello''\<rparr>] 30)"
    by (simp add: anchor_def)
  show ?thesis
    using h ends_at_or_below_anchor [OF _ _ h] by simp
qed

subsection \<open>Bucket structure\<close>

lemma bin_blocks_cases:
  "bin_blocks segs k bin0 i = [] \<or>
   bin_blocks segs k bin0 i =
     [\<lparr>blk_start = bin0 + int i * k, blk_end = bin0 + int i * k + k,
       blk_text = light_cleanup (join_space (bin_texts segs k bin0 i))\<rparr>]"
  by (simp add: bin_blocks_def Let_def)

lemma concat_bin_blocks:
  "concat (map (bin_blocks segs k bin0) xs) =
     map (\<lambda>i. \<lparr>blk_start = bin0 + int i * k, blk_end = bin0 + int i * k + k,
                blk_text = light_cleanup (join_space (bin_texts segs k bin0 i))\<rparr>)
       (filter (\<lambda>i. bin_blocks segs k bin0 i \<noteq> []) xs)"
proof (induction xs)
  case Nil
  then show ?case by simp
next
  case (Cons x xs)
  then show ?case
    using bin_blocks_cases [of segs k bin0 x] by auto
qed

lemma sorted_starts:
  assumes "0 < (k::int)" and "sorted_wrt (<) (idx :: nat list)"
  shows "sorted_wrt (<) (map (\<lambda>i. bin0 + int i * k) idx)"
proof -
  have "sorted_wrt (\<lambda>i j. bin0 + int i * k < bin0 + int j * k) idx"
    using assms(2)
  proof (rule sorted_wrt_mono_rel [rotated])
    fix i j :: nat
    assume "i < j"
    then show "bin0 + int i * k < bin0 + int j * k"
      using assms(1) by simp
  qed
  then show ?thesis
    by (simp add: sorted_wrt_map)
qed

text \<open>
  C6: for a non-empty segment list and a positive interval \<open>k\<close>, \<^verbatim>\<open>build_blocks\<close>
  returns blocks whose starts are \<open>anchor + i * k\<close> for strictly ascending bin indices
  \<open>i\<close>, where \<open>anchor = floor(segments[0].start / k) * k\<close>; the indices are those
  below the number of bins whose bin emits a block, so a gap is a bin that was filtered
  out. Every block ends \<open>k\<close> after its start, its start is congruent to the anchor modulo
  \<open>k\<close>, and the starts are strictly ascending.
\<close>

theorem bucket_structure:
  assumes "segs \<noteq> []" and "0 < k"
  shows "\<exists>bs idx. build_blocks segs k = Inr bs
      \<and> anchor segs k = \<lfloor>seg_start (hd segs) / of_int k\<rfloor> * k
      \<and> sorted_wrt (<) idx
      \<and> set idx = {i. i < nat (bin_count segs k) \<and> bin_blocks segs k (anchor segs k) i \<noteq> []}
      \<and> map blk_start bs = map (\<lambda>i. anchor segs k + int i * k) idx
      \<and> (\<forall>b\<in>set bs. blk_end b = blk_start b + k
                    \<and> blk_start b mod k = anchor segs k mod k)
      \<and> sorted_wrt (<) (map blk_start bs)"
proof -
  define bin0 where "bin0 = anchor segs k"
  define n where "n = nat (bin_count segs k)"
  define idx where "idx = filter (\<lambda>i. bin_blocks segs k bin0 i \<noteq> []) [0..<n]"
  define bs where "bs = map (\<lambda>i. \<lparr>blk_start = bin0 + int i * k, blk_end = bin0 + int i * k + k,
                blk_text = light_cleanup (join_space (bin_texts segs k bin0 i))\<rparr>) idx"
  have b: "build_blocks segs k = Inr bs"
    using assms by (simp add: build_blocks_bins concat_bin_blocks bs_def idx_def bin0_def n_def)
  have s: "sorted_wrt (<) idx"
    unfolding idx_def by (rule sorted_wrt_filter) simp
  have r: "set idx = {i. i < n \<and> bin_blocks segs k bin0 i \<noteq> []}"
    by (auto simp: idx_def)
  have st: "map blk_start bs = map (\<lambda>i. bin0 + int i * k) idx"
    by (simp add: bs_def)
  have e: "\<forall>b\<in>set bs. blk_end b = blk_start b + k \<and> blk_start b mod k = bin0 mod k"
    by (auto simp: bs_def)
  have asc: "sorted_wrt (<) (map blk_start bs)"
    unfolding st using assms(2) s by (rule sorted_starts)
  show ?thesis
    using b s r st e asc unfolding bin0_def n_def
    by (intro exI [of _ bs] exI [of _ idx]) (simp add: anchor_def)
qed

text \<open>An instance: the two segments of the end-to-end scenario, with interval 30.\<close>

theorem bucket_structure_witness:
  "scenario \<noteq> [] \<and> (0::int) < 30 \<and>
   (\<exists>bs idx. build_blocks scenario 30 = Inr bs
      \<and> anchor scenario 30 = \<lfloor>seg_start (hd scenario) / of_int 30\<rfloor> * 30
      \<and> sorted_wrt (<) idx
      \<and> set idx = {i. i < nat (bin_count scenario 30)
                        \<and> bin_blocks scenario 30 (anchor scenario 30) i \<noteq> []}
      \<and> map blk_start bs = map (\<lambda>i. anchor scenario 30 + int i * 30) idx
      \<and> (\<forall>b\<in>set bs. blk_end b = blk_start b + 30
                    \<and> blk_start b mod 30 = anchor scenario 30 mod 30)
      \<and> sorted_wrt (<) (map blk_start bs))"
proof -
  have h: "scenario \<noteq> []"
    by (simp add: scenario_def)
  show ?thesis
    using h bucket_structure [OF h, of 30] by simp
qed

subsection \<open>Loops that stop at the first failing element\<close>





subsection \<open>The two inner loops\<close>
















subsection \<open>Which segments a bin scans\<close>








subsection \<open>Text that reaches a bucket\<close>












section \<open>Properties of the timestamp\<close>




lemma length_decimal_ge: "10 \<le> n \<Longrightarrow> 2 \<le> length (decimal n)"
proof (induction n rule: decimal.induct)
  case (1 n)
  have "1 \<le> length (decimal (n div 10))"
    by (subst decimal.simps) simp
  then show ?case
    using "1.prems" by (subst decimal.simps) simp
qed


lemma fmt_02d_wide: "100 \<le> n \<Longrightarrow> fmt_02d n = decimal (nat n)"
  using length_decimal_ge [of "nat n"] by (simp add: fmt_02d_def)




section \<open>Properties of the normalizer\<close>

subsection \<open>The terminal period\<close>

lemma LF_is_space: "is_space (CHR 0x0A)"
  by (simp add: is_space_def)

lemma at_dollar_dropWhile: "at_dollar (dropWhile is_space cs) \<longleftrightarrow> list_all is_space cs"
proof (induction cs)
  case Nil
  then show ?case by (simp add: at_dollar_def)
next
  case (Cons c cs)
  show ?case
  proof (cases "is_space c")
    case True
    with Cons show ?thesis by simp
  next
    case False
    then have "c \<noteq> CHR 0x0A"
      using LF_is_space by auto
    with False show ?thesis
      by (simp add: at_dollar_def)
  qed
qed

lemma ends_terminal_iff:
  "ends_terminal t \<longleftrightarrow> (\<exists>p c ws. t = p @ c # ws \<and> is_terminal c \<and> list_all is_space ws)"
proof (induction t)
  case Nil
  then show ?case by simp
next
  case (Cons a t)
  show ?case
  proof
    assume "ends_terminal (a # t)"
    then consider "is_terminal a" and "list_all is_space t" | "ends_terminal t"
      by (auto simp: at_dollar_dropWhile)
    then show "\<exists>p c ws. a # t = p @ c # ws \<and> is_terminal c \<and> list_all is_space ws"
    proof cases
      case 1
      then have "a # t = [] @ a # t \<and> is_terminal a \<and> list_all is_space t" by simp
      then show ?thesis by blast
    next
      case 2
      then obtain p c ws where "t = p @ c # ws" and "is_terminal c" and "list_all is_space ws"
        using Cons.IH by blast
      then have "a # t = (a # p) @ c # ws \<and> is_terminal c \<and> list_all is_space ws" by simp
      then show ?thesis by blast
    qed
  next
    assume "\<exists>p c ws. a # t = p @ c # ws \<and> is_terminal c \<and> list_all is_space ws"
    then obtain p c ws where eq: "a # t = p @ c # ws" and c: "is_terminal c"
      and ws: "list_all is_space ws" by blast
    show "ends_terminal (a # t)"
    proof (cases p)
      case Nil
      with eq c ws show ?thesis by (simp add: at_dollar_dropWhile)
    next
      case (Cons b q)
      with eq have "t = q @ c # ws" by simp
      with c ws have "ends_terminal t"
        using Cons.IH by blast
      then show ?thesis by simp
    qed
  qed
qed

text \<open>
  C7: with \<open>t\<close> the string after all earlier rules, the normalizer returns \<open>t\<close> with one
  period appended when \<open>t\<close> is not empty, does not end in a period, an exclamation mark or
  a question mark followed by nothing but whitespace, and is longer than 40 characters;
  in every other case, and so whenever \<open>t\<close> has 40 characters or fewer, it returns \<open>t\<close>
  as it is.
\<close>

theorem terminal_period_rule:
  "(before_terminal x \<noteq> [] \<and> \<not> ends_terminal (before_terminal x)
      \<and> 40 < length (before_terminal x)
      \<longrightarrow> light_cleanup x = before_terminal x @ ''.'')
   \<and> (\<not> (before_terminal x \<noteq> [] \<and> \<not> ends_terminal (before_terminal x)
          \<and> 40 < length (before_terminal x))
      \<longrightarrow> light_cleanup x = before_terminal x)
   \<and> (length (before_terminal x) \<le> 40 \<longrightarrow> light_cleanup x = before_terminal x)
   \<and> (ends_terminal (before_terminal x) \<longleftrightarrow>
        (\<exists>p c ws. before_terminal x = p @ c # ws \<and> c \<in> set ''.!?'' \<and> list_all is_space ws))"
proof -
  have "ends_terminal (before_terminal x) \<longleftrightarrow>
        (\<exists>p c ws. before_terminal x = p @ c # ws \<and> c \<in> set ''.!?'' \<and> list_all is_space ws)"
    unfolding ends_terminal_iff is_terminal_def ..
  then show ?thesis
    by (simp add: light_cleanup_def Let_def)
qed

text \<open>Two instances: a block of 59 characters with no terminal mark, and a short one.\<close>

theorem terminal_period_rule_witness:
  "before_terminal ''this block of words is clearly longer than forty characters'' \<noteq> []
   \<and> \<not> ends_terminal (before_terminal ''this block of words is clearly longer than forty characters'')
   \<and> 40 < length (before_terminal ''this block of words is clearly longer than forty characters'')
   \<and> light_cleanup ''this block of words is clearly longer than forty characters'' =
       before_terminal ''this block of words is clearly longer than forty characters'' @ ''.''
   \<and> length (before_terminal ''a heading'') \<le> 40
   \<and> light_cleanup ''a heading'' = before_terminal ''a heading''"
proof -
  have b: "before_terminal ''this block of words is clearly longer than forty characters'' =
      ''this block of words is clearly longer than forty characters''"
    by code_simp
  have h: "before_terminal ''this block of words is clearly longer than forty characters'' \<noteq> []
   \<and> \<not> ends_terminal (before_terminal ''this block of words is clearly longer than forty characters'')
   \<and> 40 < length (before_terminal ''this block of words is clearly longer than forty characters'')"
    unfolding b by code_simp
  have s: "length (before_terminal ''a heading'') \<le> 40"
    by code_simp
  show ?thesis
    using h s
      terminal_period_rule [of "''this block of words is clearly longer than forty characters''"]
      terminal_period_rule [of "''a heading''"]
    by blast
qed

subsection \<open>Filler removal\<close>

lemma lit_ci_Some:
  "lit_ci p s = Some r \<Longrightarrow> \<exists>m. s = m @ r \<and> map lower m = map lower p"
proof (induction p s rule: lit_ci.induct)
  case (1 s)
  then show ?case by simp
next
  case (2 p ps)
  then show ?case by simp
next
  case (3 p ps c cs)
  then have eq: "lower c = lower p" and "lit_ci ps cs = Some r"
    by (simp_all split: if_splits)
  then obtain m where "cs = m @ r" and "map lower m = map lower ps"
    using "3.IH" by blast
  with eq have "c # cs = (c # m) @ r \<and> map lower (c # m) = map lower (p # ps)"
    by simp
  then show ?case by blast
qed

lemma elongated_Some:
  assumes "elongated c d s = Some r"
  shows "\<exists>m. s = m @ r \<and> elongation (lower c) (lower d) (map lower m)"
proof -
  from assms obtain x y ys where s: "s = x # y # ys"
    and x: "lower x = lower c" and y: "lower y = lower d"
    and r: "r = dropWhile (\<lambda>z. lower z = lower d) ys"
    by (auto simp: elongated_def split: list.splits if_splits)
  let ?m = "x # y # takeWhile (\<lambda>z. lower z = lower d) ys"
  have "s = ?m @ r"
    by (simp add: s r)
  moreover have "list_all (\<lambda>z. z = lower d) (map lower (takeWhile (\<lambda>z. lower z = lower d) ys))"
    by (auto simp: list_all_iff dest: set_takeWhileD)
  then have "elongation (lower c) (lower d) (map lower ?m)"
    by (simp add: elongation_def x y)
  ultimately show ?thesis by blast
qed

lemma lower_fillers:
  "lower CHR ''u'' = CHR ''u''" "lower CHR ''m'' = CHR ''m''" "lower CHR ''h'' = CHR ''h''"
  "lower CHR ''e'' = CHR ''e''" "lower CHR ''r'' = CHR ''r''" "lower CHR ''a'' = CHR ''a''"
  "map lower ''like'' = ''like''" "map lower ''you know'' = ''you know''"
  "map lower ''kind of'' = ''kind of''" "map lower ''sort of'' = ''sort of''"
  "map lower ''I mean'' = ''i mean''"
  by code_simp+

lemma is_filler_phrase:
  assumes "map lower m \<in> set [''like'', ''you know'', ''kind of'', ''sort of'', ''i mean'']"
  shows "is_filler m"
  using assms by (simp only: is_filler_def Let_def) blast

lemma is_filler_elongation:
  assumes "elongation c d (map lower m)"
    and "(c, d) \<in> set [(CHR ''u'', CHR ''m''), (CHR ''u'', CHR ''h''),
                       (CHR ''e'', CHR ''r''), (CHR ''a'', CHR ''h'')]"
  shows "is_filler m"
  using assms by (simp only: is_filler_def Let_def) auto

lemma lit_ci_filler:
  assumes "lit_ci p s = Some r"
    and "map lower p \<in> set [''like'', ''you know'', ''kind of'', ''sort of'', ''i mean'']"
  shows "\<exists>m. s = m @ r \<and> is_filler m"
proof -
  from assms(1) obtain m where m: "s = m @ r" and l: "map lower m = map lower p"
    using lit_ci_Some by blast
  from assms(2) have "is_filler m"
    unfolding l [symmetric] by (rule is_filler_phrase)
  with m show ?thesis by blast
qed

lemma elongated_filler:
  assumes "elongated c d s = Some r"
    and "(lower c, lower d) \<in> set [(CHR ''u'', CHR ''m''), (CHR ''u'', CHR ''h''),
                       (CHR ''e'', CHR ''r''), (CHR ''a'', CHR ''h'')]"
  shows "\<exists>m. s = m @ r \<and> is_filler m"
proof -
  from assms(1) obtain m where m: "s = m @ r"
    and l: "elongation (lower c) (lower d) (map lower m)"
    using elongated_Some by blast
  from l assms(2) have "is_filler m"
    by (rule is_filler_elongation)
  with m show ?thesis by blast
qed

lemma FILLER_WORDS_Some:
  assumes "w \<in> set FILLER_WORDS" and "w s = Some r"
  shows "\<exists>m. s = m @ r \<and> is_filler m"
proof -
  from assms(1) consider
      "w = elongated CHR ''u'' CHR ''m''" | "w = elongated CHR ''u'' CHR ''h''"
    | "w = elongated CHR ''e'' CHR ''r''" | "w = elongated CHR ''a'' CHR ''h''"
    | "w = lit_ci ''like''" | "w = lit_ci ''you know''" | "w = lit_ci ''kind of''"
    | "w = lit_ci ''sort of''" | "w = lit_ci ''I mean''"
    by (auto simp: FILLER_WORDS_def)
  then show ?thesis
  proof cases
    case 1
    with assms(2) show ?thesis
      by (intro elongated_filler [of "CHR ''u''" "CHR ''m''"]) (simp_all add: lower_fillers)
  next
    case 2
    with assms(2) show ?thesis
      by (intro elongated_filler [of "CHR ''u''" "CHR ''h''"]) (simp_all add: lower_fillers)
  next
    case 3
    with assms(2) show ?thesis
      by (intro elongated_filler [of "CHR ''e''" "CHR ''r''"]) (simp_all add: lower_fillers)
  next
    case 4
    with assms(2) show ?thesis
      by (intro elongated_filler [of "CHR ''a''" "CHR ''h''"]) (simp_all add: lower_fillers)
  next
    case 5
    with assms(2) show ?thesis
      by (intro lit_ci_filler [of "''like''"]) (simp_all only: lower_fillers, simp)
  next
    case 6
    with assms(2) show ?thesis
      by (intro lit_ci_filler [of "''you know''"]) (simp_all only: lower_fillers, simp)
  next
    case 7
    with assms(2) show ?thesis
      by (intro lit_ci_filler [of "''kind of''"]) (simp_all only: lower_fillers, simp)
  next
    case 8
    with assms(2) show ?thesis
      by (intro lit_ci_filler [of "''sort of''"]) (simp_all only: lower_fillers, simp)
  next
    case 9
    with assms(2) show ?thesis
      by (intro lit_ci_filler [of "''I mean''"]) (simp_all only: lower_fillers, simp)
  qed
qed

lemma filler_group3_Some:
  assumes "filler_group3 r = Some (g3, rest)"
  shows "r = g3 @ rest \<and> (g3 = [] \<and> at_dollar rest \<or> (\<exists>d. g3 = [d] \<and> is_delim d))"
  using assms by (auto simp: filler_group3_def at_dollar_def split: list.splits if_splits)

lemma filler_word_Some:
  assumes "filler_word ws pv s = Some (g2, g3, rest)" and "set ws \<subseteq> set FILLER_WORDS"
  shows "s = g2 @ g3 @ rest \<and> g2 \<noteq> [] \<and> is_filler g2
     \<and> (g3 = [] \<and> at_dollar rest \<or> (\<exists>d. g3 = [d] \<and> is_delim d))"
  using assms
proof (induction ws)
  case Nil
  then show ?case by simp
next
  case (Cons w ws)
  show ?case
  proof (cases "filler_word ws pv s = Some (g2, g3, rest)")
    case True
    with Cons show ?thesis by simp
  next
    case False
    with Cons.prems(1) obtain r where wr: "w s = Some r"
      and g2: "g2 = take (length s - length r) s" and ne: "g2 \<noteq> []"
      and g3: "filler_group3 r = Some (g3, rest)"
      by (auto simp: Let_def split: option.splits if_splits)
    from Cons.prems(2) wr obtain m where m: "s = m @ r" and f: "is_filler m"
      using FILLER_WORDS_Some [of w s r] by auto
    from m g2 have "g2 = m" by simp
    with m f ne filler_group3_Some [OF g3] show ?thesis
      by auto
  qed
qed

lemma filler_groups_Some:
  assumes "filler_groups prev s = Some (g1, g2, g3, rest)"
  shows "s = g1 @ g2 @ g3 @ rest \<and> g2 \<noteq> [] \<and> is_filler g2
     \<and> (g1 = [] \<and> prev = None \<or> (\<exists>d. g1 = [d] \<and> is_delim d))
     \<and> (g3 = [] \<and> at_dollar rest \<or> (\<exists>d. g3 = [d] \<and> is_delim d))"
proof (cases "if prev = None then filler_word FILLER_WORDS None s else None")
  case (Some t)
  then have p: "prev = None" and "filler_word FILLER_WORDS None s = Some t"
    by (simp_all split: if_splits)
  with assms Some have "filler_word FILLER_WORDS None s = Some (g2, g3, rest)" and "g1 = []"
    by (auto simp: filler_groups_def split: prod.splits)
  with p filler_word_Some [of FILLER_WORDS None s g2 g3 rest] show ?thesis
    by simp
next
  case None
  with assms obtain c cs where s: "s = c # cs" and d: "is_delim c"
    and w: "filler_word FILLER_WORDS (Some c) cs = Some (g2, g3, rest)" and g1: "g1 = [c]"
    by (auto simp: filler_groups_def split: list.splits if_splits option.splits)
  with filler_word_Some [of FILLER_WORDS "Some c" cs g2 g3 rest] show ?thesis
    by auto
qed

lemma re_sub_filler_match:
  assumes "filler_groups prev s = Some (g1, g2, g3, rest)"
  shows "re_sub filler prev s = g1 @ g3 @ re_sub filler (Some (last (g1 @ g2 @ g3))) rest"
proof -
  define m where "m = g1 @ g2 @ g3"
  from filler_groups_Some [OF assms]
  have s: "s = m @ rest" and ne: "m \<noteq> []"
    by (simp_all add: m_def)
  from ne obtain c m' where m: "m = c # m'"
    by (cases m) simp_all
  have f: "filler prev (c # m' @ rest) = Some (g1 @ g3, rest)"
    using assms by (simp add: filler_def s m)
  have "(c # m' @ rest) ! length m' = (c # m') ! length m'"
    using nth_append [of "c # m'" rest "length m'"] by simp
  also have "\<dots> = last (c # m')"
    using last_conv_nth [of "c # m'"] by simp
  finally have l: "(c # m' @ rest) ! length m' = last m"
    by (simp only: m)
  have "re_sub filler prev (c # m' @ rest) = g1 @ g3 @ re_sub filler (Some (last m)) rest"
    by (simp add: f l del: last.simps)
  then show ?thesis
    by (simp add: s m m_def [symmetric])
qed

lemma re_sub_filler_no_match:
  assumes "filler_groups prev s = None"
  shows "re_sub filler prev s = (case s of [] \<Rightarrow> [] | c # cs \<Rightarrow> c # re_sub filler (Some c) cs)"
  using assms by (cases s) (simp_all add: filler_def)

text \<open>
  C3, as stated: a removal in rule 3 replaces the filler and its two delimiters by a single
  delimiter, so that no doubled delimiters are left and a comma and a semicolon do not
  both survive. Rule 3 turns ",um," into ",," and ",um;" into ",;", and the comma and the
  semicolon are both still there in the result of the whole chain.
\<close>

theorem filler_removal_counterexample:
  "re_sub filler None ''a,um,b'' = ''a,,b'' \<and>
   re_sub filler None ''a,um;b'' = ''a,;b'' \<and>
   light_cleanup ''a,um;b'' = ''a,; b''"
  by code_simp

text \<open>
  C3, amended: every match of the filler pattern is a leading delimiter (or the start of
  the string), a filler, and a trailing delimiter (or the end of the string), and the
  substitution puts both delimiters back, the leading one and then the trailing one: only
  the filler is deleted, and the scan resumes after the trailing delimiter. Where the
  pattern does not match, one character is copied.
\<close>

theorem filler_removal_keeps_delimiters:
  "(filler_groups prev s = Some (g1, g2, g3, rest) \<longrightarrow>
      s = g1 @ g2 @ g3 @ rest \<and> is_filler g2
      \<and> (g1 = [] \<and> prev = None \<or> (\<exists>d. g1 = [d] \<and> is_delim d))
      \<and> (g3 = [] \<and> at_dollar rest \<or> (\<exists>d. g3 = [d] \<and> is_delim d))
      \<and> re_sub filler prev s = g1 @ g3 @ re_sub filler (Some (last (g1 @ g2 @ g3))) rest)
   \<and> (filler_groups prev s = None \<longrightarrow>
      re_sub filler prev s = (case s of [] \<Rightarrow> [] | c # cs \<Rightarrow> c # re_sub filler (Some c) cs))"
  using filler_groups_Some [of prev s g1 g2 g3 rest]
    re_sub_filler_match [of prev s g1 g2 g3 rest] re_sub_filler_no_match [of prev s]
  by blast

text \<open>An instance: the filler "um" between a comma and a semicolon.\<close>

theorem filler_removal_keeps_delimiters_witness:
  "filler_groups (Some CHR ''a'') '',um;b'' = Some ('','', ''um'', '';'', ''b'')
   \<and> is_filler ''um''
   \<and> re_sub filler (Some CHR ''a'') '',um;b'' = '',;b''"
proof -
  have g: "filler_groups (Some CHR ''a'') '',um;b'' = Some ('','', ''um'', '';'', ''b'')"
    by code_simp
  have r: "re_sub filler (Some CHR '';'') ''b'' = ''b''"
    by code_simp
  have "is_filler ''um'' \<and> re_sub filler (Some CHR ''a'') '',um;b'' =
      '','' @ '';'' @ re_sub filler (Some (last ('','' @ ''um'' @ '';''))) ''b''"
    using filler_removal_keeps_delimiters
      [of "Some CHR ''a''" "'',um;b''" "'',''" "''um''" "'';''" "''b''"] g
    by blast
  then show ?thesis
    using g r by simp
qed

subsection \<open>Applying the normalizer twice\<close>

text \<open>
  C2 claims that applying the normalizer twice gives the same as applying it once. Of
  three repetitions of a word only the first two are collapsed in one pass, since the
  scan resumes after the second; likewise only the first of two fillers in a row is
  removed, since the first match consumes the delimiter in front of the second. A second
  application then changes the result of the first.
\<close>

theorem light_cleanup_not_idempotent:
  "light_cleanup ''the the the'' = ''the the'' \<and>
   light_cleanup (light_cleanup ''the the the'') = ''the'' \<and>
   light_cleanup ''um um so'' = ''um so'' \<and>
   light_cleanup (light_cleanup ''um um so'') = ''so''"
  by code_simp

subsection \<open>The patterns consume input\<close>

text \<open>
  A match of any of the six patterns is at least one character long, so the length test
  in \<open>re_sub\<close> always succeeds for them: after a match the scan resumes behind it, as
  \<^verbatim>\<open>re.sub\<close> does for a non-empty match.
\<close>

lemma whitespace_run_consumes:
  "whitespace_run prev s = Some (repl, rest) \<Longrightarrow> length rest < length s"
  using length_dropWhile_le [of is_space "tl s"]
  by (auto simp: whitespace_run_def split: list.splits if_splits)

lemma filler_consumes:
  assumes "filler prev s = Some (repl, rest)"
  shows "length rest < length s"
proof -
  from assms obtain g1 g2 g3 where "filler_groups prev s = Some (g1, g2, g3, rest)"
    by (auto simp: filler_def split: option.splits)
  from filler_groups_Some [OF this] have "s = g1 @ g2 @ g3 @ rest" and "g2 \<noteq> []"
    by simp_all
  then show ?thesis
    by (cases g2) simp_all
qed

lemma destutter_consumes:
  assumes "destutter prev s = Some (repl, rest)"
  shows "length rest < length s"
proof -
  let ?w = "takeWhile is_word s"
  let ?r1 = "dropWhile is_word s"
  let ?r2 = "dropWhile is_space ?r1"
  from assms have w: "?w \<noteq> []" and l: "lit_ci ?w ?r2 = Some rest"
    by (auto simp: destutter_def Let_def split: if_splits option.splits)
  from l obtain m where "?r2 = m @ rest"
    using lit_ci_Some by blast
  then have "length rest \<le> length ?r2"
    by (metis length_append le_add2)
  also have "\<dots> \<le> length ?r1"
    by (rule length_dropWhile_le)
  finally have le: "length rest \<le> length ?r1" .
  have "length (?w @ ?r1) = length ?w + length ?r1"
    by (rule length_append)
  then have "length s = length ?w + length ?r1"
    by (simp only: takeWhile_dropWhile_id)
  moreover have "0 < length ?w"
    using w by simp
  ultimately show ?thesis
    using le by linarith
qed

lemma space_before_punct_consumes:
  assumes "space_before_punct prev s = Some (repl, rest)"
  shows "length rest < length s"
proof -
  from assms obtain c cs p where s: "s = c # cs" and d: "dropWhile is_space cs = p # rest"
    by (auto simp: space_before_punct_def split: list.splits if_splits)
  have "length (dropWhile is_space cs) \<le> length cs"
    by (rule length_dropWhile_le)
  with s d show ?thesis by simp
qed

lemma space_after_punct_consumes:
  "space_after_punct prev s = Some (repl, rest) \<Longrightarrow> length rest < length s"
  by (auto simp: space_after_punct_def split: list.splits if_splits)

lemma double_punct_consumes:
  assumes "double_punct prev s = Some (repl, rest)"
  shows "length rest < length s"
proof -
  from assms obtain p q t where s: "s = p # q # t" and r: "rest = dropWhile (\<lambda>x. x = p) t"
    by (auto simp: double_punct_def split: list.splits if_splits)
  have "length (dropWhile (\<lambda>x. x = p) t) \<le> length t"
    by (rule length_dropWhile_le)
  with s r show ?thesis by simp
qed

lemma re_sub_consuming:
  assumes "\<And>prev s repl rest. m prev s = Some (repl, rest) \<Longrightarrow> length rest < length s"
  shows "re_sub m prev (c # cs) =
     (case m prev (c # cs) of
        None \<Rightarrow> c # re_sub m (Some c) cs
      | Some (repl, rest) \<Rightarrow>
          repl @ re_sub m (Some ((c # cs) ! (length cs - length rest))) rest)"
proof (cases "m prev (c # cs)")
  case None
  then show ?thesis by simp
next
  case (Some a)
  obtain repl rest where a: "a = (repl, rest)"
    by (cases a)
  with Some assms [of prev "c # cs" repl rest] have "length rest \<le> length cs"
    by simp
  with Some a show ?thesis by simp
qed

end
